theory Spec2Isabelle
  imports Complex_Main "HOL-Library.AList" "HOL-Library.Sublist" "HOL-Library.Multiset"
begin

section \<open>Data model\<close>

text \<open>
  The module \<open>prioritize_tasks.py\<close>. A task arrives as a \<open>TaskDict\<close> and is normalised
  into a \<open>Task\<close>. The library type \<open>datetime\<close> is the type parameter \<open>'dt\<close>, and a
  deadline of type \<open>Union[datetime, str]\<close> is a \<open>deadline_in\<close>. Priorities are Python's
  unbounded integers. Estimated hours are numbers that the code only compares with
  zero; they are reals here, which covers integers and finite floats. The field \<open>id\<close>
  is written \<open>td_id\<close> and \<open>task_id\<close>. Exceptions are values of \<open>error\<close>, carrying their
  message.
\<close>

definition PRIORITY_MIN :: int where
  "PRIORITY_MIN = 1"

definition PRIORITY_MAX :: int where
  "PRIORITY_MAX = 5"

datatype 'dt deadline_in = DT 'dt | Str string

record 'dt TaskDict =
  td_id :: string
  td_name :: string
  td_deadline :: "'dt deadline_in"
  td_priority :: int
  td_dependencies :: "string list"
  td_estimated_hours :: real

record 'dt Task =
  task_id :: string
  name :: string
  deadline :: 'dt
  priority :: int
  dependencies :: "string list"
  estimated_hours :: real

datatype error =
    CircularDependencyError string
  | InvalidDependencyError string
  | InvalidPriorityError string
  | ValueError string

section \<open>String formatting\<close>

text \<open>
  What the f-strings of the messages need: the decimal text of an integer (\<open>str\<close>),
  double quotes around an id, and \<open>deadline.replace("Z", "+00:00")\<close>.
\<close>

definition digit_char :: "nat \<Rightarrow> char" where
  "digit_char n = ''0123456789'' ! n"

fun str_nat :: "nat \<Rightarrow> string" where
  "str_nat n = (if n < 10 then [digit_char n] else str_nat (n div 10) @ [digit_char (n mod 10)])"

declare str_nat.simps [simp del]

definition str_int :: "int \<Rightarrow> string" where
  "str_int i = (if i < 0 then CHR ''-'' # str_nat (nat (- i)) else str_nat (nat i))"

definition quoted :: "string \<Rightarrow> string" where
  "quoted s = [CHR 0x22] @ s @ [CHR 0x22]"

definition str_replace_Z :: "string \<Rightarrow> string" where
  "str_replace_Z s = concat (map (\<lambda>c. if c = CHR ''Z'' then ''+00:00'' else [c]) s)"

section \<open>parse_deadline\<close>

text \<open>
  \<open>datetime.fromisoformat\<close> belongs to the standard library, so it is a parameter:
  \<open>None\<close> stands for its \<open>ValueError\<close>, which the function turns into its own.
\<close>

definition parse_deadline :: "(string \<Rightarrow> 'dt option) \<Rightarrow> 'dt deadline_in \<Rightarrow> error + 'dt" where
  "parse_deadline fromisoformat dl =
     (case dl of
        DT d \<Rightarrow> Inr d
      | Str s \<Rightarrow>
          (case (if CHR ''T'' \<in> set s then fromisoformat (str_replace_Z s) else fromisoformat s) of
             Some d \<Rightarrow> Inr d
           | None \<Rightarrow> Inl (ValueError (''Invalid date format: '' @ s))))"

section \<open>validate_task\<close>

text \<open>The loop over \<open>task.dependencies\<close> is \<open>check_dependencies\<close>.\<close>

fun check_dependencies :: "string \<Rightarrow> string list \<Rightarrow> string set \<Rightarrow> error + unit" where
  "check_dependencies tid [] all_task_ids = Inr ()"
| "check_dependencies tid (dep_id # deps) all_task_ids =
     (if dep_id \<notin> all_task_ids
      then Inl (InvalidDependencyError
             (''Task '' @ quoted tid @ '' has dependency on non-existent task '' @ quoted dep_id @ ''.''))
      else check_dependencies tid deps all_task_ids)"

definition validate_task :: "'dt Task \<Rightarrow> string set \<Rightarrow> error + unit" where
  "validate_task task all_task_ids =
     (if priority task < PRIORITY_MIN \<or> priority task > PRIORITY_MAX
      then Inl (InvalidPriorityError
             (''Task '' @ quoted (task_id task) @ '' has invalid priority '' @ str_int (priority task)
              @ ''. Priority must be between '' @ str_int PRIORITY_MIN @ '' and ''
              @ str_int PRIORITY_MAX @ ''.''))
      else (case check_dependencies (task_id task) (dependencies task) all_task_ids of
              Inl e \<Rightarrow> Inl e
            | Inr u \<Rightarrow>
                if estimated_hours task < 0
                then Inl (ValueError (''Task '' @ quoted (task_id task) @ '' has negative estimated hours.''))
                else Inr ()))"

section \<open>detect_circular_dependencies\<close>

text \<open>
  The dictionary from id to \<open>Task\<close> is an association list in insertion order:
  \<open>tasks.get\<close> is \<open>map_of\<close> and \<open>tasks.keys()\<close> is \<open>map fst\<close>. The two sets that the inner
  function \<open>has_cycle\<close> shares with its enclosing function are the state it takes and
  returns. Its loop over the dependencies of a task is \<open>has_cycle_deps\<close>. A \<open>Task\<close>
  object is always truthy, so \<open>if task\<close> asks whether the id is a key. Returning
  \<open>True\<close> leaves the recursion stack as it is, as in the source.
\<close>

record dfs_state =
  visited :: "string set"
  recursion_stack :: "string set"

function has_cycle :: "(string \<times> 'dt Task) list \<Rightarrow> string \<Rightarrow> dfs_state \<Rightarrow> bool \<times> dfs_state"
  and has_cycle_deps :: "(string \<times> 'dt Task) list \<Rightarrow> string list \<Rightarrow> dfs_state \<Rightarrow> bool \<times> dfs_state"
where
  "has_cycle tasks tid s =
     (if tid \<in> recursion_stack s then (True, s)
      else if tid \<in> visited s then (False, s)
      else (case map_of tasks tid of
              None \<Rightarrow>
                (False, \<lparr>visited = insert tid (visited s),
                         recursion_stack = insert tid (recursion_stack s) - {tid}\<rparr>)
            | Some task \<Rightarrow>
                (let (found, s') = has_cycle_deps tasks (dependencies task)
                        \<lparr>visited = insert tid (visited s),
                         recursion_stack = insert tid (recursion_stack s)\<rparr>
                 in if found then (True, s')
                    else (False, s'\<lparr>recursion_stack := recursion_stack s' - {tid}\<rparr>))))"
| "has_cycle_deps tasks [] s = (False, s)"
| "has_cycle_deps tasks (dep_id # deps) s =
     (let (found, s') = has_cycle tasks dep_id s
      in if found then (True, s') else has_cycle_deps tasks deps s')"
  by pat_completeness auto

text \<open>The top-level loop over the keys, with its \<open>and\<close> evaluated left to right.\<close>

definition circular_message :: "string \<Rightarrow> string" where
  "circular_message tid = ''Circular dependency detected involving task '' @ quoted tid @ ''.''"

fun detect_loop :: "(string \<times> 'dt Task) list \<Rightarrow> string list \<Rightarrow> dfs_state \<Rightarrow> error + unit" where
  "detect_loop tasks [] s = Inr ()"
| "detect_loop tasks (tid # keys) s =
     (if tid \<notin> visited s
      then (let (found, s') = has_cycle tasks tid s
            in if found then Inl (CircularDependencyError (circular_message tid))
               else detect_loop tasks keys s')
      else detect_loop tasks keys s)"

definition detect_circular_dependencies :: "(string \<times> 'dt Task) list \<Rightarrow> error + unit" where
  "detect_circular_dependencies tasks =
     detect_loop tasks (map fst tasks) \<lparr>visited = {}, recursion_stack = {}\<rparr>"

section \<open>The dependency graph\<close>

text \<open>
  The graph of a mapping has an edge from a key to each dependency of its task. The
  remaining definitions are the invariant of the traversal: the finished nodes
  (visited and no longer on the recursion stack) are closed under edges and lie on no
  cycle, and every node on the stack reaches the node being visited.
\<close>

definition dep_edges :: "(string \<times> 'dt Task) list \<Rightarrow> (string \<times> string) set" where
  "dep_edges tasks = {(a, b). \<exists>t. map_of tasks a = Some t \<and> b \<in> set (dependencies t)}"

definition on_cycle :: "(string \<times> 'dt Task) list \<Rightarrow> string \<Rightarrow> bool" where
  "on_cycle tasks c = ((c, c) \<in> (dep_edges tasks)\<^sup>+)"

definition reaches_cycle :: "(string \<times> 'dt Task) list \<Rightarrow> string \<Rightarrow> bool" where
  "reaches_cycle tasks a = (\<exists>c. (a, c) \<in> (dep_edges tasks)\<^sup>* \<and> on_cycle tasks c)"

definition cyclic :: "(string \<times> 'dt Task) list \<Rightarrow> bool" where
  "cyclic tasks = (\<exists>c. on_cycle tasks c)"

definition deps_resolve :: "(string \<times> 'dt Task) list \<Rightarrow> bool" where
  "deps_resolve tasks =
     list_all (\<lambda>(k, t). list_all (\<lambda>d. d \<in> set (map fst tasks)) (dependencies t)) tasks"

definition finished_ok :: "('a \<times> 'a) set \<Rightarrow> 'a set \<Rightarrow> bool" where
  "finished_ok E B = (E `` B \<subseteq> B \<and> (\<forall>b\<in>B. (b, b) \<notin> E\<^sup>+))"

definition dfs_inv :: "(string \<times> 'dt Task) list \<Rightarrow> dfs_state \<Rightarrow> bool" where
  "dfs_inv tasks s =
     (recursion_stack s \<subseteq> visited s \<and>
      finished_ok (dep_edges tasks) (visited s - recursion_stack s))"

definition on_path :: "(string \<times> 'dt Task) list \<Rightarrow> dfs_state \<Rightarrow> string \<Rightarrow> bool" where
  "on_path tasks s x = (\<forall>g\<in>recursion_stack s. (g, x) \<in> (dep_edges tasks)\<^sup>+)"

definition dfs_post :: "(string \<times> 'dt Task) list \<Rightarrow> dfs_state \<Rightarrow> dfs_state \<Rightarrow> string set \<Rightarrow> bool" where
  "dfs_post tasks s s' X =
     (recursion_stack s' = recursion_stack s \<and> visited s \<subseteq> visited s' \<and>
      X \<subseteq> visited s' - recursion_stack s \<and> dfs_inv tasks s')"


text \<open>The measure of the traversal: the keys not yet visited.\<close>

definition dfs_unvisited :: "(string \<times> 'dt Task) list \<Rightarrow> dfs_state \<Rightarrow> nat" where
  "dfs_unvisited tasks s = card (fst ` set tasks - visited s)"

section \<open>normalize_tasks and prioritize_tasks\<close>

text \<open>
  \<open>normalized[task_dict["id"]] = Task(...)\<close> is \<open>AList.update\<close>: a new id is appended, a
  repeated id keeps its place and takes the new task. \<open>prioritize_tasks\<close> ends with
  \<open>return tasks\<close>, the list it was given.
\<close>

definition make_Task :: "'dt TaskDict \<Rightarrow> 'dt \<Rightarrow> 'dt Task" where
  "make_Task task_dict d =
     \<lparr>task_id = td_id task_dict, name = td_name task_dict, deadline = d,
      priority = td_priority task_dict, dependencies = td_dependencies task_dict,
      estimated_hours = td_estimated_hours task_dict\<rparr>"

fun normalize_loop ::
  "(string \<Rightarrow> 'dt option) \<Rightarrow> 'dt TaskDict list \<Rightarrow> (string \<times> 'dt Task) list
     \<Rightarrow> error + (string \<times> 'dt Task) list" where
  "normalize_loop fromisoformat [] normalized = Inr normalized"
| "normalize_loop fromisoformat (task_dict # rest) normalized =
     (case parse_deadline fromisoformat (td_deadline task_dict) of
        Inl e \<Rightarrow> Inl e
      | Inr d \<Rightarrow>
          normalize_loop fromisoformat rest
            (AList.update (td_id task_dict) (make_Task task_dict d) normalized))"

definition normalize_tasks ::
  "(string \<Rightarrow> 'dt option) \<Rightarrow> 'dt TaskDict list \<Rightarrow> error + (string \<times> 'dt Task) list" where
  "normalize_tasks fromisoformat tasks = normalize_loop fromisoformat tasks []"

fun validate_tasks :: "'dt Task list \<Rightarrow> string set \<Rightarrow> error + unit" where
  "validate_tasks [] all_task_ids = Inr ()"
| "validate_tasks (task # rest) all_task_ids =
     (case validate_task task all_task_ids of
        Inl e \<Rightarrow> Inl e
      | Inr u \<Rightarrow> validate_tasks rest all_task_ids)"

definition prioritize_tasks ::
  "(string \<Rightarrow> 'dt option) \<Rightarrow> 'dt TaskDict list \<Rightarrow> error + 'dt TaskDict list" where
  "prioritize_tasks fromisoformat tasks =
     (if tasks = [] then Inr []
      else
        (case normalize_tasks fromisoformat tasks of
           Inl e \<Rightarrow> Inl e
         | Inr normalized_tasks \<Rightarrow>
             (case validate_tasks (map snd normalized_tasks) (set (map td_id tasks)) of
                Inl e \<Rightarrow> Inl e
              | Inr u \<Rightarrow>
                  (case detect_circular_dependencies normalized_tasks of
                     Inl e \<Rightarrow> Inl e
                   | Inr u' \<Rightarrow> Inr tasks))))"

section \<open>Properties of batches\<close>

text \<open>
  The vocabulary of the properties: a deadline that parses, the \<open>Task\<close> a record is
  normalised to, a valid batch, the dependency graph of a batch, and an output in
  which every dependency of a record has been placed before it.
\<close>

definition parses :: "(string \<Rightarrow> 'dt option) \<Rightarrow> 'dt TaskDict \<Rightarrow> bool" where
  "parses fromisoformat task_dict =
     (case parse_deadline fromisoformat (td_deadline task_dict) of
        Inl e \<Rightarrow> False
      | Inr d \<Rightarrow> True)"

definition normalized_of :: "(string \<Rightarrow> 'dt option) \<Rightarrow> 'dt TaskDict \<Rightarrow> 'dt Task" where
  "normalized_of fromisoformat task_dict =
     make_Task task_dict (projr (parse_deadline fromisoformat (td_deadline task_dict)))"

definition valid_batch :: "(string \<Rightarrow> 'dt option) \<Rightarrow> 'dt TaskDict list \<Rightarrow> bool" where
  "valid_batch fromisoformat tasks =
     list_all (\<lambda>task_dict.
        parses fromisoformat task_dict \<and>
        PRIORITY_MIN \<le> td_priority task_dict \<and> td_priority task_dict \<le> PRIORITY_MAX \<and>
        list_all (\<lambda>d. d \<in> set (map td_id tasks)) (td_dependencies task_dict) \<and>
        0 \<le> td_estimated_hours task_dict) tasks"

definition batch_edges :: "'dt TaskDict list \<Rightarrow> (string \<times> string) set" where
  "batch_edges tasks =
     {(a, b). \<exists>task_dict. task_dict \<in> set tasks \<and> td_id task_dict = a \<and>
                b \<in> set (td_dependencies task_dict)}"

fun dependencies_placed :: "string list \<Rightarrow> 'dt TaskDict list \<Rightarrow> bool" where
  "dependencies_placed placed [] = True"
| "dependencies_placed placed (task_dict # rest) =
     (list_all (\<lambda>d. d \<in> set placed) (td_dependencies task_dict) \<and>
      dependencies_placed (placed @ [td_id task_dict]) rest)"

definition respects_dependencies :: "'dt TaskDict list \<Rightarrow> bool" where
  "respects_dependencies out = dependencies_placed [] out"

section \<open>Sample inputs\<close>

text \<open>
  Concrete inputs, most of them taken from the test suite. A datetime at midnight is
  written as (year, month, day). \<open>sample_fromisoformat\<close> holds the library's results on
  the date strings used below; the one other string used, \<open>not-a-date\<close>, is rejected by
  the library as well.
\<close>

type_synonym date = "nat \<times> nat \<times> nat"

definition sample_fromisoformat :: "string \<Rightarrow> date option" where
  "sample_fromisoformat =
     map_of [(''2024-01-15'', (2024, 1, 15)), (''2024-01-18'', (2024, 1, 18)),
             (''2024-01-20'', (2024, 1, 20)), (''2024-01-22'', (2024, 1, 22)),
             (''2024-01-25'', (2024, 1, 25)), (''2024-01-30'', (2024, 1, 30))]"

definition sample_node :: "string \<Rightarrow> string list \<Rightarrow> string \<times> date Task" where
  "sample_node k deps =
     (k, \<lparr>task_id = k, name = ''Task '' @ k, deadline = (2024, 1, 15), priority = 3,
          dependencies = deps, estimated_hours = 2\<rparr>)"

definition self_dependent :: "(string \<times> date Task) list" where
  "self_dependent = [sample_node ''1'' [''1'']]"

definition chain :: "(string \<times> date Task) list" where
  "chain = [sample_node ''2'' [''1''], sample_node ''1'' []]"

definition lead_in :: "(string \<times> date Task) list" where
  "lead_in = [sample_node ''A'' [''B''], sample_node ''B'' [''C''], sample_node ''C'' [''B'']]"

definition dangling :: "(string \<times> date Task) list" where
  "dangling = [sample_node ''1'' [''999'']]"

definition sample_dict ::
  "string \<Rightarrow> string \<Rightarrow> int \<Rightarrow> string list \<Rightarrow> real \<Rightarrow> date TaskDict" where
  "sample_dict k dl p deps h =
     \<lparr>td_id = k, td_name = ''Task '' @ k, td_deadline = Str dl, td_priority = p,
      td_dependencies = deps, td_estimated_hours = h\<rparr>"

definition single_task :: "date TaskDict list" where
  "single_task = [sample_dict ''1'' ''2024-01-15'' 3 [] 2]"

definition simple_dependencies :: "date TaskDict list" where
  "simple_dependencies =
     [sample_dict ''2'' ''2024-01-15'' 5 [''1''] 8, sample_dict ''1'' ''2024-01-20'' 3 [] 2]"

definition worked_example :: "date TaskDict list" where
  "worked_example =
     [sample_dict ''1'' ''2024-01-25'' 5 [] 2,
      sample_dict ''2'' ''2024-01-20'' 4 [''1''] 4,
      sample_dict ''3'' ''2024-01-22'' 5 [''1''] 8,
      sample_dict ''4'' ''2024-01-18'' 3 [''2'', ''3''] 2,
      sample_dict ''5'' ''2024-01-30'' 2 [''4''] 3]"

definition two_invalid :: "date TaskDict list" where
  "two_invalid =
     [sample_dict ''1'' ''2024-01-15'' 3 [] 2,
      sample_dict ''2'' ''2024-01-15'' 0 [''999''] (-1),
      sample_dict ''3'' ''2024-01-15'' 9 [] 2]"

definition bad_priority_then_bad_date :: "date TaskDict list" where
  "bad_priority_then_bad_date =
     [sample_dict ''1'' ''2024-01-15'' 0 [] 2, sample_dict ''2'' ''not-a-date'' 9 [] 2]"

definition sample_task :: "date Task" where
  "sample_task =
     \<lparr>task_id = ''1'', name = ''Task 1'', deadline = (2024, 1, 15), priority = 6,
      dependencies = [], estimated_hours = 2\<rparr>"

section \<open>Termination of the traversal\<close>

lemma has_cycle_visited_mono_dom:
  "has_cycle_has_cycle_deps_dom (Inl (tasks, tid, s)) \<Longrightarrow>
     visited s \<subseteq> visited (snd (has_cycle tasks tid s))"
  "has_cycle_has_cycle_deps_dom (Inr (tasks, deps, s)) \<Longrightarrow>
     visited s \<subseteq> visited (snd (has_cycle_deps tasks deps s))"
proof (induct rule: has_cycle_has_cycle_deps.pinduct)
  case (1 tasks tid s)
  then show ?case
    by (auto simp: has_cycle.psimps split: option.splits prod.splits)
next
  case (2 tasks s)
  then show ?case by (simp add: has_cycle_deps.psimps)
next
  case (3 tasks dep_id deps s)
  obtain found s' where hc: "has_cycle tasks dep_id s = (found, s')"
    by (cases "has_cycle tasks dep_id s")
  have m1: "visited s \<subseteq> visited s'"
    using 3(2) hc by simp
  show ?case
  proof (cases found)
    case True
    then show ?thesis using 3(1) hc m1 by (simp add: has_cycle_deps.psimps)
  next
    case False
    have "visited s' \<subseteq> visited (snd (has_cycle_deps tasks deps s'))"
      using 3(3)[OF refl hc[symmetric] False] .
    then show ?thesis using 3(1) hc m1 False by (auto simp: has_cycle_deps.psimps)
  qed
qed

lemma dfs_unvisited_mono: "visited s \<subseteq> visited s' \<Longrightarrow> dfs_unvisited tasks s' \<le> dfs_unvisited tasks s"
  unfolding dfs_unvisited_def by (rule card_mono) auto

lemma dfs_unvisited_enter:
  assumes "map_of tasks tid = Some t" "tid \<notin> visited s"
  shows "dfs_unvisited tasks \<lparr>visited = insert tid (visited s), recursion_stack = r\<rparr>
           < dfs_unvisited tasks s"
proof -
  have "tid \<in> fst ` set tasks"
    using assms(1) by (metis map_of_eq_None_iff option.distinct(1))
  then have "fst ` set tasks - insert tid (visited s) \<subset> fst ` set tasks - visited s"
    using assms(2) by auto
  then show ?thesis
    unfolding dfs_unvisited_def by (simp add: psubset_card_mono)
qed

termination has_cycle
proof (relation "measures
    [\<lambda>x. case x of Inl (tasks, tid, s) \<Rightarrow> dfs_unvisited tasks s
                 | Inr (tasks, deps, s) \<Rightarrow> dfs_unvisited tasks s,
     \<lambda>x. case x of Inl y \<Rightarrow> 0 | Inr y \<Rightarrow> Suc 0,
     \<lambda>x. case x of Inl y \<Rightarrow> 0 | Inr (tasks, deps, s) \<Rightarrow> length deps]", goal_cases)
  case 1
  show ?case by simp
next
  case (2 tasks tid s x2)
  then show ?case by (simp add: dfs_unvisited_enter)
next
  case (3 tasks dep_id deps s)
  show ?case by simp
next
  case (4 tasks dep_id deps s x xa y)
  have "visited s \<subseteq> visited (snd (has_cycle tasks dep_id s))"
    using 4(4) by (rule has_cycle_visited_mono_dom(1))
  with 4 have "dfs_unvisited tasks y \<le> dfs_unvisited tasks s"
    by (metis dfs_unvisited_mono snd_conv)
  then show ?case by auto
qed


lemma closed_rtrancl: "(b, c) \<in> E\<^sup>* \<Longrightarrow> E `` B \<subseteq> B \<Longrightarrow> b \<in> B \<Longrightarrow> c \<in> B"
  by (induction rule: rtrancl_induct) auto

lemma finished_ok_add:
  assumes ok: "finished_ok E B" and succ: "E `` {a} \<subseteq> B" and fresh: "a \<notin> B"
  shows "finished_ok E (insert a B)"
proof -
  have cl: "E `` B \<subseteq> B" using ok by (simp add: finished_ok_def)
  have "(a, a) \<notin> E\<^sup>+"
  proof
    assume "(a, a) \<in> E\<^sup>+"
    then obtain z where "(a, z) \<in> E" "(z, a) \<in> E\<^sup>*"
      by (meson tranclD)
    then have "z \<in> B" using succ by auto
    with \<open>(z, a) \<in> E\<^sup>*\<close> have "a \<in> B" using cl closed_rtrancl by metis
    with fresh show False by simp
  qed
  moreover have "E `` insert a B \<subseteq> insert a B" using cl succ by auto
  ultimately show ?thesis using ok by (simp add: finished_ok_def)
qed

lemma finished_ok_no_cycle:
  assumes "finished_ok E B" "b \<in> B" "(b, c) \<in> E\<^sup>*"
  shows "(c, c) \<notin> E\<^sup>+"
proof -
  have "c \<in> B" using assms closed_rtrancl[of b c E B] by (simp add: finished_ok_def)
  then show ?thesis using assms(1) by (simp add: finished_ok_def)
qed

lemma dep_edges_Image: "dep_edges tasks `` {a} = (case map_of tasks a of None \<Rightarrow> {} | Some t \<Rightarrow> set (dependencies t))"
  by (auto simp: dep_edges_def split: option.splits)

lemma reaches_cycle_step:
  "(a, b) \<in> dep_edges tasks \<Longrightarrow> reaches_cycle tasks b \<Longrightarrow> reaches_cycle tasks a"
  unfolding reaches_cycle_def by (meson converse_rtrancl_into_rtrancl)

lemma has_cycle_spec:
  "dfs_inv tasks s \<Longrightarrow> on_path tasks s tid \<Longrightarrow>
     (fst (has_cycle tasks tid s) \<longrightarrow> reaches_cycle tasks tid) \<and>
     (\<not> fst (has_cycle tasks tid s) \<longrightarrow> dfs_post tasks s (snd (has_cycle tasks tid s)) {tid})"
  "dfs_inv tasks s \<Longrightarrow> (\<forall>d\<in>set deps. on_path tasks s d) \<Longrightarrow>
     (fst (has_cycle_deps tasks deps s) \<longrightarrow> (\<exists>d\<in>set deps. reaches_cycle tasks d)) \<and>
     (\<not> fst (has_cycle_deps tasks deps s) \<longrightarrow> dfs_post tasks s (snd (has_cycle_deps tasks deps s)) (set deps))"
proof (induct tasks tid s and tasks deps s rule: has_cycle_has_cycle_deps.induct)
  case (1 tasks tid s)
  let ?E = "dep_edges tasks"
  let ?V = "visited s" and ?S = "recursion_stack s"
  show ?case
  proof (cases "tid \<in> ?S")
    case True
    then have "(tid, tid) \<in> ?E\<^sup>+" using 1(3) by (simp add: on_path_def)
    then have "reaches_cycle tasks tid" by (auto simp: reaches_cycle_def on_cycle_def)
    then show ?thesis using True by (simp add: has_cycle.simps)
  next
    case nS: False
    show ?thesis
    proof (cases "tid \<in> ?V")
      case True
      then show ?thesis using nS 1(2) by (simp add: has_cycle.simps dfs_post_def)
    next
      case nV: False
      have B: "finished_ok ?E (?V - ?S)" and SV: "?S \<subseteq> ?V"
        using 1(2) by (simp_all add: dfs_inv_def)
      show ?thesis
      proof (cases "map_of tasks tid")
        case None
        then have "?E `` {tid} \<subseteq> ?V - ?S" by (simp add: dep_edges_Image)
        then have "finished_ok ?E (insert tid (?V - ?S))"
          using B nV by (intro finished_ok_add) auto
        moreover have "insert tid ?V - (insert tid ?S - {tid}) = insert tid (?V - ?S)"
          using nS by auto
        moreover have "insert tid ?S - {tid} = ?S" using nS by auto
        ultimately show ?thesis
          using nS nV None SV by (auto simp: has_cycle.simps dfs_post_def dfs_inv_def)
      next
        case (Some t)
        let ?s1 = "\<lparr>visited = insert tid ?V, recursion_stack = insert tid ?S\<rparr>"
        obtain found s' where hd: "has_cycle_deps tasks (dependencies t) ?s1 = (found, s')"
          by (cases "has_cycle_deps tasks (dependencies t) ?s1")
        have "insert tid ?V - insert tid ?S = ?V - ?S" using nV by auto
        then have inv1: "dfs_inv tasks ?s1" using B SV by (auto simp: dfs_inv_def)
        have edge: "\<And>d. d \<in> set (dependencies t) \<Longrightarrow> (tid, d) \<in> ?E"
          using Some by (auto simp: dep_edges_def)
        have path1: "\<forall>d\<in>set (dependencies t). on_path tasks ?s1 d"
        proof (intro ballI)
          fix d assume d: "d \<in> set (dependencies t)"
          show "on_path tasks ?s1 d"
            unfolding on_path_def
          proof
            fix g assume "g \<in> recursion_stack ?s1"
            then consider "g = tid" | "g \<in> ?S" by auto
            then show "(g, d) \<in> ?E\<^sup>+"
            proof cases
              case 1
              then show ?thesis using edge[OF d] by auto
            next
              case 2
              then have "(g, tid) \<in> ?E\<^sup>+" using \<open>on_path tasks s tid\<close> by (simp add: on_path_def)
              then show ?thesis using edge[OF d] by (meson trancl.trancl_into_trancl)
            qed
          qed
        qed
        note IH = 1(1)[OF nS nV Some inv1 path1]
        have res: "has_cycle tasks tid s =
            (if found then (True, s') else (False, s'\<lparr>recursion_stack := recursion_stack s' - {tid}\<rparr>))"
          using nS nV Some hd by (simp add: has_cycle.simps)
        show ?thesis
        proof (cases found)
          case True
          then obtain d where "d \<in> set (dependencies t)" "reaches_cycle tasks d"
            using IH hd by auto
          then have "reaches_cycle tasks tid" using edge reaches_cycle_step by blast
          then show ?thesis using True res by simp
        next
          case False
          then have post: "dfs_post tasks ?s1 s' (set (dependencies t))"
            using IH hd by simp
          then have S': "recursion_stack s' = insert tid ?S"
            and V': "insert tid ?V \<subseteq> visited s'"
            and D': "set (dependencies t) \<subseteq> visited s' - insert tid ?S"
            and B': "finished_ok ?E (visited s' - insert tid ?S)"
            by (auto simp: dfs_post_def dfs_inv_def)
          have "?E `` {tid} \<subseteq> visited s' - insert tid ?S"
            using D' Some by (simp add: dep_edges_Image)
          then have "finished_ok ?E (insert tid (visited s' - insert tid ?S))"
            using B' by (intro finished_ok_add) auto
          moreover have "insert tid (visited s' - insert tid ?S) = visited s' - ?S"
            using V' nS by auto
          ultimately have "finished_ok ?E (visited s' - ?S)" by simp
          moreover have "recursion_stack s' - {tid} = ?S" using S' nS by auto
          ultimately show ?thesis
            using False res V' SV nS by (auto simp: dfs_post_def dfs_inv_def)
        qed
      qed
    qed
  qed
next
  case (2 tasks s)
  then show ?case by (simp add: dfs_post_def)
next
  case (3 tasks dep_id deps s)
  obtain found s' where hc: "has_cycle tasks dep_id s = (found, s')"
    by (cases "has_cycle tasks dep_id s")
  have IH1: "(found \<longrightarrow> reaches_cycle tasks dep_id) \<and> (\<not> found \<longrightarrow> dfs_post tasks s s' {dep_id})"
    using 3(1)[OF 3(3)] 3(4) hc by simp
  show ?case
  proof (cases found)
    case True
    then show ?thesis using IH1 hc by simp
  next
    case False
    then have post1: "dfs_post tasks s s' {dep_id}" using IH1 by simp
    then have inv': "dfs_inv tasks s'" and S': "recursion_stack s' = recursion_stack s"
      by (simp_all add: dfs_post_def)
    have path': "\<forall>d\<in>set deps. on_path tasks s' d"
      using 3(4) S' by (simp add: on_path_def)
    note IH2 = 3(2)[OF refl hc[symmetric] False inv' path']
    have res: "has_cycle_deps tasks (dep_id # deps) s = has_cycle_deps tasks deps s'"
      using hc False by simp
    show ?thesis
    proof (cases "fst (has_cycle_deps tasks deps s')")
      case True
      then show ?thesis using IH2 res by auto
    next
      case nf: False
      then have "dfs_post tasks s' (snd (has_cycle_deps tasks deps s')) (set deps)"
        using IH2 by simp
      then have "dfs_post tasks s (snd (has_cycle_deps tasks deps s')) (set (dep_id # deps))"
        using post1 by (auto simp: dfs_post_def)
      then show ?thesis using nf res by simp
    qed
  qed
qed

lemma detect_loop_spec:
  "dfs_inv tasks s \<Longrightarrow> recursion_stack s = {} \<Longrightarrow>
     (detect_loop tasks keys s = Inr () \<longrightarrow>
        (\<exists>s'. dfs_inv tasks s' \<and> recursion_stack s' = {} \<and> set keys \<union> visited s \<subseteq> visited s')) \<and>
     (\<forall>e. detect_loop tasks keys s = Inl e \<longrightarrow>
        (\<exists>k\<in>set keys. e = CircularDependencyError (circular_message k) \<and> reaches_cycle tasks k))"
proof (induction keys arbitrary: s)
  case Nil
  then show ?case by auto
next
  case (Cons tid keys)
  show ?case
  proof (cases "tid \<in> visited s")
    case True
    then show ?thesis using Cons.IH[OF Cons.prems] by auto
  next
    case False
    obtain found s' where hc: "has_cycle tasks tid s = (found, s')"
      by (cases "has_cycle tasks tid s")
    have path: "on_path tasks s tid" using Cons.prems(2) by (simp add: on_path_def)
    note spec = has_cycle_spec(1)[OF Cons.prems(1) path]
    show ?thesis
    proof (cases found)
      case True
      then have "reaches_cycle tasks tid" using spec hc by simp
      then show ?thesis using True False hc by simp
    next
      case nf: False
      then have post: "dfs_post tasks s s' {tid}" using spec hc by simp
      then have inv': "dfs_inv tasks s'" and S': "recursion_stack s' = {}"
        and V': "insert tid (visited s) \<subseteq> visited s'"
        using Cons.prems(2) by (auto simp: dfs_post_def)
      have eq: "detect_loop tasks (tid # keys) s = detect_loop tasks keys s'"
        using False hc nf by simp
      show ?thesis
        unfolding eq using Cons.IH[OF inv' S'] V' by (simp only: list.set) blast
    qed
  qed
qed

lemma dfs_inv_initial: "dfs_inv tasks \<lparr>visited = {}, recursion_stack = {}\<rparr>"
  by (simp add: dfs_inv_def finished_ok_def)

lemma detect_sound:
  assumes "detect_circular_dependencies tasks = Inl e"
  shows "\<exists>k\<in>set (map fst tasks). e = CircularDependencyError (circular_message k) \<and> reaches_cycle tasks k"
  using assms detect_loop_spec[OF dfs_inv_initial, of tasks "map fst tasks"]
  unfolding detect_circular_dependencies_def by simp

lemma on_cycle_is_key:
  assumes "on_cycle tasks c"
  shows "c \<in> fst ` set tasks"
proof -
  obtain z where "(c, z) \<in> dep_edges tasks"
    using assms unfolding on_cycle_def by (meson tranclD)
  then obtain t where "map_of tasks c = Some t" by (auto simp: dep_edges_def)
  then show ?thesis by (metis map_of_eq_None_iff option.distinct(1))
qed

lemma detect_complete:
  assumes "detect_circular_dependencies tasks = Inr ()"
  shows "\<not> cyclic tasks"
proof
  assume "cyclic tasks"
  then obtain c where c: "on_cycle tasks c" by (auto simp: cyclic_def)
  obtain s' where inv: "dfs_inv tasks s'" and S: "recursion_stack s' = {}"
    and V: "set (map fst tasks) \<subseteq> visited s'"
    using assms detect_loop_spec[OF dfs_inv_initial, of tasks "map fst tasks"]
    unfolding detect_circular_dependencies_def by auto
  have "c \<in> visited s'" using on_cycle_is_key[OF c] V by auto
  moreover have "finished_ok (dep_edges tasks) (visited s')"
    using inv S by (simp add: dfs_inv_def)
  ultimately have "(c, c) \<notin> (dep_edges tasks)\<^sup>+"
    by (simp add: finished_ok_def)
  with c show False by (simp add: on_cycle_def)
qed

lemma reaches_cycle_cyclic: "reaches_cycle tasks a \<Longrightarrow> cyclic tasks"
  by (auto simp: reaches_cycle_def cyclic_def)

lemma detect_iff_cyclic:
  "(\<exists>msg. detect_circular_dependencies tasks = Inl (CircularDependencyError msg)) \<longleftrightarrow> cyclic tasks"
proof
  assume "\<exists>msg. detect_circular_dependencies tasks = Inl (CircularDependencyError msg)"
  then show "cyclic tasks" using detect_sound reaches_cycle_cyclic by blast
next
  assume cyc: "cyclic tasks"
  show "\<exists>msg. detect_circular_dependencies tasks = Inl (CircularDependencyError msg)"
  proof (cases "detect_circular_dependencies tasks")
    case (Inl e)
    then show ?thesis using detect_sound by blast
  next
    case (Inr u)
    then have "detect_circular_dependencies tasks = Inr ()" by simp
    then show ?thesis using detect_complete[of tasks] cyc by simp
  qed
qed

lemma detect_acyclic: "\<not> cyclic tasks \<Longrightarrow> detect_circular_dependencies tasks = Inr ()"
proof (cases "detect_circular_dependencies tasks")
  case (Inl e)
  assume "\<not> cyclic tasks"
  then show ?thesis using Inl detect_sound reaches_cycle_cyclic by blast
next
  case (Inr u)
  then show ?thesis by simp
qed

lemma has_cycle_stack_restored:
  "\<not> fst (has_cycle tasks tid s) \<longrightarrow>
     recursion_stack (snd (has_cycle tasks tid s)) = recursion_stack s"
  "\<not> fst (has_cycle_deps tasks deps s) \<longrightarrow>
     recursion_stack (snd (has_cycle_deps tasks deps s)) = recursion_stack s"
proof (induct tasks tid s and tasks deps s rule: has_cycle_has_cycle_deps.induct)
  case (1 tasks tid s)
  show ?case
  proof (cases "tid \<in> recursion_stack s \<or> tid \<in> visited s")
    case True
    then show ?thesis by (auto simp: has_cycle.simps)
  next
    case False
    show ?thesis
    proof (cases "map_of tasks tid")
      case None
      then show ?thesis using False by (auto simp: has_cycle.simps)
    next
      case (Some t)
      let ?s1 = "\<lparr>visited = insert tid (visited s),
                  recursion_stack = insert tid (recursion_stack s)\<rparr>"
      obtain found s' where hd: "has_cycle_deps tasks (dependencies t) ?s1 = (found, s')"
        by (cases "has_cycle_deps tasks (dependencies t) ?s1")
      have "\<not> found \<longrightarrow> recursion_stack s' = insert tid (recursion_stack s)"
        using 1[of t] False Some hd by simp
      then show ?thesis
        using False Some hd by (auto simp: has_cycle.simps)
    qed
  qed
next
  case (2 tasks s)
  show ?case by simp
next
  case (3 tasks dep_id deps s)
  obtain found s' where hc: "has_cycle tasks dep_id s = (found, s')"
    by (cases "has_cycle tasks dep_id s")
  show ?case
  proof (cases found)
    case True
    then show ?thesis using hc by simp
  next
    case False
    have "recursion_stack s' = recursion_stack s" using 3(1) hc False by simp
    moreover have "\<not> fst (has_cycle_deps tasks deps s') \<longrightarrow>
        recursion_stack (snd (has_cycle_deps tasks deps s')) = recursion_stack s'"
      using 3(2)[OF refl hc[symmetric] False] .
    ultimately show ?thesis using hc False by simp
  qed
qed

lemma visited_no_cycle:
  assumes "dfs_inv tasks s" "recursion_stack s = {}" "x \<in> visited s"
  shows "\<not> reaches_cycle tasks x"
proof
  assume "reaches_cycle tasks x"
  then obtain c where "(x, c) \<in> (dep_edges tasks)\<^sup>*" "(c, c) \<in> (dep_edges tasks)\<^sup>+"
    by (auto simp: reaches_cycle_def on_cycle_def)
  moreover have "finished_ok (dep_edges tasks) (visited s)"
    using assms by (simp add: dfs_inv_def)
  ultimately show False
    using finished_ok_no_cycle assms(3) by metis
qed

lemma detect_loop_first:
  "dfs_inv tasks s \<Longrightarrow> recursion_stack s = {} \<Longrightarrow> detect_loop tasks keys s = Inl e \<Longrightarrow>
     \<exists>ks1 k ks2. keys = ks1 @ k # ks2 \<and> e = CircularDependencyError (circular_message k) \<and>
        reaches_cycle tasks k \<and> (\<forall>k'\<in>set ks1. \<not> reaches_cycle tasks k')"
proof (induction keys arbitrary: s)
  case Nil
  then show ?case by simp
next
  case (Cons tid keys)
  show ?case
  proof (cases "tid \<in> visited s")
    case True
    then have "detect_loop tasks keys s = Inl e" using Cons.prems(3) by simp
    then obtain ks1 k ks2 where r: "keys = ks1 @ k # ks2"
        "e = CircularDependencyError (circular_message k)" "reaches_cycle tasks k"
        "\<forall>k'\<in>set ks1. \<not> reaches_cycle tasks k'"
      using Cons.IH[OF Cons.prems(1,2)] by blast
    have "\<not> reaches_cycle tasks tid"
      using visited_no_cycle[OF Cons.prems(1,2) True] .
    then have "tid # keys = (tid # ks1) @ k # ks2 \<and> (\<forall>k'\<in>set (tid # ks1). \<not> reaches_cycle tasks k')"
      using r by simp
    then show ?thesis using r(2,3) by blast
  next
    case False
    obtain found s' where hc: "has_cycle tasks tid s = (found, s')"
      by (cases "has_cycle tasks tid s")
    have path: "on_path tasks s tid" using Cons.prems(2) by (simp add: on_path_def)
    note spec = has_cycle_spec(1)[OF Cons.prems(1) path]
    show ?thesis
    proof (cases found)
      case True
      then have "reaches_cycle tasks tid" using spec hc by simp
      moreover have "e = CircularDependencyError (circular_message tid)"
        using Cons.prems(3) False hc True by simp
      ultimately have "tid # keys = [] @ tid # keys \<and> e = CircularDependencyError (circular_message tid)
          \<and> reaches_cycle tasks tid \<and> (\<forall>k'\<in>set []. \<not> reaches_cycle tasks k')"
        by simp
      then show ?thesis by blast
    next
      case nf: False
      then have post: "dfs_post tasks s s' {tid}" using spec hc by simp
      then have inv': "dfs_inv tasks s'" and S': "recursion_stack s' = {}"
        and V': "tid \<in> visited s'"
        using Cons.prems(2) by (auto simp: dfs_post_def)
      have "detect_loop tasks keys s' = Inl e"
        using Cons.prems(3) False hc nf by simp
      then obtain ks1 k ks2 where r: "keys = ks1 @ k # ks2"
          "e = CircularDependencyError (circular_message k)" "reaches_cycle tasks k"
          "\<forall>k'\<in>set ks1. \<not> reaches_cycle tasks k'"
        using Cons.IH[OF inv' S'] by blast
      have "\<not> reaches_cycle tasks tid"
        using visited_no_cycle[OF inv' S' V'] .
      then have "tid # keys = (tid # ks1) @ k # ks2 \<and> (\<forall>k'\<in>set (tid # ks1). \<not> reaches_cycle tasks k')"
        using r by simp
      then show ?thesis using r(2,3) by blast
    qed
  qed
qed

lemma self_dependency_cyclic:
  assumes "map_of tasks tid = Some t" "tid \<in> set (dependencies t)"
  shows "cyclic tasks"
proof -
  have "(tid, tid) \<in> dep_edges tasks" using assms by (auto simp: dep_edges_def)
  then show ?thesis unfolding cyclic_def on_cycle_def by blast
qed

lemma circular_message_inject: "circular_message a = circular_message b \<Longrightarrow> a = b"
  by (simp add: circular_message_def quoted_def)

section \<open>Cycle detection\<close>

text \<open>
  C4: when every dependency id is a key of the mapping, \<open>detect_circular_dependencies\<close>
  raises \<open>CircularDependencyError\<close> exactly when the dependency graph has a cycle; an
  acyclic graph raises nothing, and a task listing its own id is detected.
  (The traversal is modelled with unbounded recursion depth.)
\<close>

theorem detect_circular_dependencies_iff_cycle:
  assumes "deps_resolve tasks"
  shows "((\<exists>msg. detect_circular_dependencies tasks = Inl (CircularDependencyError msg))
            \<longleftrightarrow> cyclic tasks) \<and>
         (\<not> cyclic tasks \<longrightarrow> detect_circular_dependencies tasks = Inr ()) \<and>
         (\<forall>tid t. map_of tasks tid = Some t \<and> tid \<in> set (dependencies t) \<longrightarrow>
            (\<exists>msg. detect_circular_dependencies tasks = Inl (CircularDependencyError msg)))"
proof (intro conjI allI impI)
  show "(\<exists>msg. detect_circular_dependencies tasks = Inl (CircularDependencyError msg))
          \<longleftrightarrow> cyclic tasks"
    by (rule detect_iff_cyclic)
next
  assume "\<not> cyclic tasks"
  then show "detect_circular_dependencies tasks = Inr ()" by (rule detect_acyclic)
next
  fix tid t
  assume "map_of tasks tid = Some t \<and> tid \<in> set (dependencies t)"
  then have "cyclic tasks" using self_dependency_cyclic by blast
  then show "\<exists>msg. detect_circular_dependencies tasks = Inl (CircularDependencyError msg)"
    using detect_iff_cyclic by blast
qed

theorem detect_circular_dependencies_iff_cycle_witness:
  "deps_resolve self_dependent \<and> cyclic self_dependent \<and>
   detect_circular_dependencies self_dependent
     = Inl (CircularDependencyError (circular_message ''1'')) \<and>
   deps_resolve chain \<and> \<not> cyclic chain \<and> detect_circular_dependencies chain = Inr ()"
proof -
  have r1: "deps_resolve self_dependent"
    by (simp add: deps_resolve_def self_dependent_def sample_node_def)
  have r2: "deps_resolve chain"
    by (simp add: deps_resolve_def chain_def sample_node_def)
  have d1: "detect_circular_dependencies self_dependent
      = Inl (CircularDependencyError (circular_message ''1''))"
    by (simp add: detect_circular_dependencies_def self_dependent_def sample_node_def
        has_cycle.simps)
  have d2: "detect_circular_dependencies chain = Inr ()"
    by (simp add: detect_circular_dependencies_def chain_def sample_node_def has_cycle.simps)
  have c1: "cyclic self_dependent"
    using detect_circular_dependencies_iff_cycle [OF r1] d1 by blast
  have c2: "\<not> cyclic chain"
    using detect_circular_dependencies_iff_cycle [OF r2] d2 by auto
  show ?thesis using r1 r2 d1 d2 c1 c2 by simp
qed

text \<open>
  C6, as the code has it: the id named in the error is the key from which the top-level
  loop started the traversal. It is the first key, in the mapping's iteration order,
  from which a cycle can be reached along dependency edges; it need not lie on the
  cycle itself.
\<close>

theorem detect_error_names_start_key:
  assumes "detect_circular_dependencies tasks = Inl e"
  shows "\<exists>ks1 k ks2. map fst tasks = ks1 @ k # ks2 \<and>
           e = CircularDependencyError (circular_message k) \<and>
           reaches_cycle tasks k \<and> (\<forall>k'\<in>set ks1. \<not> reaches_cycle tasks k')"
  using assms detect_loop_first[OF dfs_inv_initial, of tasks "map fst tasks" e]
  unfolding detect_circular_dependencies_def by simp

lemma detect_lead_in:
  "detect_circular_dependencies lead_in = Inl (CircularDependencyError (circular_message ''A''))"
  by (simp add: detect_circular_dependencies_def lead_in_def sample_node_def has_cycle.simps)

theorem detect_error_names_start_key_witness:
  "detect_circular_dependencies lead_in = Inl (CircularDependencyError (circular_message ''A'')) \<and>
   reaches_cycle lead_in ''A''"
proof -
  obtain ks1 k ks2 where
    "CircularDependencyError (circular_message ''A'') = CircularDependencyError (circular_message k)"
    "reaches_cycle lead_in k"
    using detect_error_names_start_key [OF detect_lead_in] by blast
  then show ?thesis using detect_lead_in circular_message_inject by auto
qed

text \<open>
  C6 as stated fails: on the mapping A \<rightarrow> B, B \<rightarrow> C, C \<rightarrow> B the error names A, the
  start of the traversal, which lies on no cycle (the revisited node is B).
\<close>

theorem detect_error_not_on_cycle_counterexample:
  "detect_circular_dependencies lead_in = Inl (CircularDependencyError (circular_message ''A'')) \<and>
   \<not> on_cycle lead_in ''A''"
proof -
  have "(''A'', ''A'') \<notin> (dep_edges lead_in)\<^sup>+"
  proof
    assume "(''A'', ''A'') \<in> (dep_edges lead_in)\<^sup>+"
    then obtain z where "(z, ''A'') \<in> dep_edges lead_in"
      by (meson tranclD2)
    then show False
      by (auto simp: dep_edges_def lead_in_def sample_node_def split: if_splits)
  qed
  then show ?thesis using detect_lead_in by (simp add: on_cycle_def)
qed

text \<open>
  C9: \<open>detect_circular_dependencies\<close> returns on every mapping, whether or not the
  dependency ids are keys of it: its only outcomes are success and
  \<open>CircularDependencyError\<close>, decided by the cycles of the graph in which an id that is
  not a key has no outgoing edge. Visiting such an id reports no cycle and only marks
  it visited. When the traversal of a dependency list reports no cycle it leaves the
  recursion stack as it found it, so the id removed from the stack afterwards is
  always present. (Termination of the traversal is the termination proof of
  \<open>has_cycle\<close>; recursion depth is not bounded in the model.)
\<close>

theorem detect_total_on_unresolved:
  "(detect_circular_dependencies tasks = Inr () \<or>
      (\<exists>k. detect_circular_dependencies tasks = Inl (CircularDependencyError (circular_message k)))) \<and>
   ((\<exists>msg. detect_circular_dependencies tasks = Inl (CircularDependencyError msg))
      \<longleftrightarrow> cyclic tasks) \<and>
   (map_of tasks d = None \<longrightarrow> dep_edges tasks `` {d} = {}) \<and>
   (map_of tasks d = None \<and> d \<notin> recursion_stack s \<longrightarrow>
      \<not> fst (has_cycle tasks d s) \<and>
      visited (snd (has_cycle tasks d s)) = insert d (visited s) \<and>
      recursion_stack (snd (has_cycle tasks d s)) = recursion_stack s) \<and>
   (\<not> fst (has_cycle_deps tasks deps s) \<longrightarrow>
      recursion_stack (snd (has_cycle_deps tasks deps s)) = recursion_stack s)"
proof (intro conjI impI)
  show "detect_circular_dependencies tasks = Inr () \<or>
      (\<exists>k. detect_circular_dependencies tasks = Inl (CircularDependencyError (circular_message k)))"
  proof (cases "detect_circular_dependencies tasks")
    case (Inl e)
    then show ?thesis using detect_sound by blast
  next
    case (Inr u)
    then show ?thesis by simp
  qed
next
  show "(\<exists>msg. detect_circular_dependencies tasks = Inl (CircularDependencyError msg))
      \<longleftrightarrow> cyclic tasks"
    by (rule detect_iff_cyclic)
next
  assume "map_of tasks d = None"
  then show "dep_edges tasks `` {d} = {}" by (simp add: dep_edges_Image)
next
  assume a: "map_of tasks d = None \<and> d \<notin> recursion_stack s"
  then show "\<not> fst (has_cycle tasks d s)" by (simp add: has_cycle.simps)
  from a show "visited (snd (has_cycle tasks d s)) = insert d (visited s)"
    by (auto simp: has_cycle.simps)
  from a show "recursion_stack (snd (has_cycle tasks d s)) = recursion_stack s"
    by (auto simp: has_cycle.simps)
next
  assume "\<not> fst (has_cycle_deps tasks deps s)"
  then show "recursion_stack (snd (has_cycle_deps tasks deps s)) = recursion_stack s"
    using has_cycle_stack_restored(2) by blast
qed

theorem detect_total_on_unresolved_witness:
  "map_of dangling ''999'' = None \<and>
   ''999'' \<notin> recursion_stack \<lparr>visited = {''1''}, recursion_stack = {''1''}\<rparr> \<and>
   \<not> fst (has_cycle dangling ''999'' \<lparr>visited = {''1''}, recursion_stack = {''1''}\<rparr>) \<and>
   visited (snd (has_cycle dangling ''999'' \<lparr>visited = {''1''}, recursion_stack = {''1''}\<rparr>))
     = {''999'', ''1''} \<and>
   detect_circular_dependencies dangling = Inr () \<and> \<not> cyclic dangling"
proof -
  have n: "map_of dangling ''999'' = None"
    by (simp add: dangling_def sample_node_def)
  have d: "detect_circular_dependencies dangling = Inr ()"
    by (simp add: detect_circular_dependencies_def dangling_def sample_node_def has_cycle.simps)
  show ?thesis
    using n d detect_total_on_unresolved
      [of dangling "''999''" "\<lparr>visited = {''1''}, recursion_stack = {''1''}\<rparr>"]
    by auto
qed

section \<open>Deadline parsing\<close>

text \<open>
  C10: \<open>parse_deadline\<close> returns an already parsed datetime unchanged, and parsing the
  result of a successful parse again gives that same result; written with the error
  propagated, parsing twice is parsing once on every input.
\<close>

theorem parse_deadline_idempotent:
  "parse_deadline fromisoformat (DT d) = Inr d \<and>
   (parse_deadline fromisoformat x = Inr d \<longrightarrow>
      parse_deadline fromisoformat (DT d) = parse_deadline fromisoformat x) \<and>
   (case parse_deadline fromisoformat x of
      Inl e \<Rightarrow> Inl e
    | Inr d' \<Rightarrow> parse_deadline fromisoformat (DT d')) = parse_deadline fromisoformat x"
  by (simp add: parse_deadline_def split: sum.splits)

theorem parse_deadline_idempotent_witness:
  "parse_deadline sample_fromisoformat (Str ''2024-01-15'') = Inr (2024, 1, 15) \<and>
   parse_deadline sample_fromisoformat (DT (2024, 1, 15)) =
     parse_deadline sample_fromisoformat (Str ''2024-01-15'')"
proof -
  have h: "parse_deadline sample_fromisoformat (Str ''2024-01-15'') = Inr (2024, 1, 15)"
    by (simp add: parse_deadline_def sample_fromisoformat_def)
  show ?thesis
    using h parse_deadline_idempotent [of sample_fromisoformat "(2024, 1, 15)" "Str ''2024-01-15''"]
    by simp
qed

section \<open>Validation of one task\<close>

lemma validate_task_priority_message:
  assumes "priority task < PRIORITY_MIN \<or> priority task > PRIORITY_MAX"
  shows "validate_task task ids =
     Inl (InvalidPriorityError
       (''Task '' @ quoted (task_id task) @ '' has invalid priority '' @ str_int (priority task)
        @ ''. Priority must be between '' @ str_int PRIORITY_MIN @ '' and ''
        @ str_int PRIORITY_MAX @ ''.''))"
  using assms unfolding validate_task_def by (simp only: if_True)

lemma validate_task_in_range:
  assumes "\<not> (priority task < PRIORITY_MIN \<or> priority task > PRIORITY_MAX)"
  shows "validate_task task ids \<noteq> Inl (InvalidPriorityError msg)"
proof -
  have "\<And>tid. check_dependencies tid deps ids \<noteq> Inl (InvalidPriorityError msg)" for deps
    by (induction deps) auto
  then show ?thesis
    using assms unfolding validate_task_def by (auto split: sum.splits)
qed

text \<open>
  C5: \<open>validate_task\<close> raises \<open>InvalidPriorityError\<close> exactly when the priority is below 1
  or above 5, and the message of that error contains the task's id and the decimal
  text of the offending priority.
\<close>

theorem validate_task_invalid_priority:
  "((\<exists>msg. validate_task task ids = Inl (InvalidPriorityError msg)) \<longleftrightarrow>
      (priority task < 1 \<or> 5 < priority task)) \<and>
   (\<forall>msg. validate_task task ids = Inl (InvalidPriorityError msg) \<longrightarrow>
      sublist (task_id task) msg \<and> sublist (str_int (priority task)) msg)"
proof (cases "priority task < PRIORITY_MIN \<or> priority task > PRIORITY_MAX")
  case True
  let ?m = "''Task '' @ quoted (task_id task) @ '' has invalid priority '' @ str_int (priority task)
        @ ''. Priority must be between '' @ str_int PRIORITY_MIN @ '' and ''
        @ str_int PRIORITY_MAX @ ''.''"
  have v: "validate_task task ids = Inl (InvalidPriorityError ?m)"
    using True by (rule validate_task_priority_message)
  have "?m = (''Task '' @ [CHR 0x22]) @ task_id task @
      ([CHR 0x22] @ '' has invalid priority '' @ str_int (priority task)
        @ ''. Priority must be between '' @ str_int PRIORITY_MIN @ '' and ''
        @ str_int PRIORITY_MAX @ ''.'')"
    by (simp add: quoted_def)
  then have s1: "sublist (task_id task) ?m"
    by (metis sublist_appendI)
  have "?m = (''Task '' @ quoted (task_id task) @ '' has invalid priority '') @ str_int (priority task)
        @ (''. Priority must be between '' @ str_int PRIORITY_MIN @ '' and ''
        @ str_int PRIORITY_MAX @ ''.'')"
    by simp
  then have s2: "sublist (str_int (priority task)) ?m"
    by (metis sublist_appendI)
  show ?thesis
    using True v s1 s2 by (auto simp: PRIORITY_MIN_def PRIORITY_MAX_def)
next
  case False
  then show ?thesis
    using validate_task_in_range[OF False] by (auto simp: PRIORITY_MIN_def PRIORITY_MAX_def)
qed

lemma str_int_6: "str_int 6 = ''6''"
  by (simp add: str_int_def str_nat.simps digit_char_def)

lemma str_int_samples: "str_int 0 = ''0'' \<and> str_int 42 = ''42'' \<and> str_int (- 7) = ''-7''"
  by (simp add: str_int_def str_nat.simps digit_char_def)

theorem validate_task_invalid_priority_witness:
  "validate_task sample_task {''1''} =
     Inl (InvalidPriorityError
       (''Task '' @ [CHR 0x22] @ ''1'' @ [CHR 0x22] @ '' has invalid priority 6. Priority must be between 1 and 5.'')) \<and>
   sublist ''1'' (''Task '' @ [CHR 0x22] @ ''1'' @ [CHR 0x22] @ '' has invalid priority 6. Priority must be between 1 and 5.'') \<and>
   sublist ''6'' (''Task '' @ [CHR 0x22] @ ''1'' @ [CHR 0x22] @ '' has invalid priority 6. Priority must be between 1 and 5.'')"
proof -
  have v: "validate_task sample_task {''1''} =
     Inl (InvalidPriorityError
       (''Task '' @ [CHR 0x22] @ ''1'' @ [CHR 0x22] @ '' has invalid priority 6. Priority must be between 1 and 5.''))"
    by (simp add: validate_task_def sample_task_def PRIORITY_MIN_def PRIORITY_MAX_def
        quoted_def str_int_def str_nat.simps digit_char_def)
  have p: "priority sample_task = 6" "task_id sample_task = ''1''"
    by (simp_all add: sample_task_def)
  show ?thesis
    using v validate_task_invalid_priority [of sample_task "{''1''}"] p str_int_6
    by simp
qed

section \<open>Normalisation and validation of a batch\<close>

lemma update_fresh: "k \<notin> fst ` set al \<Longrightarrow> AList.update k v al = al @ [(k, v)]"
  by (induction al) auto

lemma normalize_loop_distinct:
  "distinct (map fst acc @ map td_id tds) \<Longrightarrow> list_all (parses f) tds \<Longrightarrow>
     normalize_loop f tds acc = Inr (acc @ map (\<lambda>td. (td_id td, normalized_of f td)) tds)"
proof (induction tds arbitrary: acc)
  case Nil
  then show ?case by simp
next
  case (Cons td tds)
  obtain d where d: "parse_deadline f (td_deadline td) = Inr d"
    using Cons.prems(2) by (auto simp: parses_def split: sum.splits)
  have fresh: "td_id td \<notin> fst ` set acc" using Cons.prems(1) by auto
  let ?acc = "acc @ [(td_id td, make_Task td d)]"
  have "distinct (map fst ?acc @ map td_id tds)" using Cons.prems(1) by auto
  moreover have "list_all (parses f) tds" using Cons.prems(2) by simp
  ultimately have "normalize_loop f tds ?acc
      = Inr (?acc @ map (\<lambda>td. (td_id td, normalized_of f td)) tds)"
    by (rule Cons.IH)
  then show ?case
    using d fresh by (simp add: update_fresh normalized_of_def)
qed

lemma normalize_tasks_distinct:
  assumes "distinct (map td_id tasks)" "list_all (parses f) tasks"
  shows "normalize_tasks f tasks = Inr (map (\<lambda>td. (td_id td, normalized_of f td)) tasks)"
  using normalize_loop_distinct[of "[]" tasks f] assms by (simp add: normalize_tasks_def)

lemma normalize_loop_parses:
  "normalize_loop f tds acc = Inr n \<Longrightarrow> list_all (parses f) tds"
  by (induction tds arbitrary: acc) (auto simp: parses_def split: sum.splits)

lemma check_dependencies_ok:
  "set deps \<subseteq> ids \<Longrightarrow> check_dependencies tid deps ids = Inr ()"
  by (induction deps) auto

lemma check_dependencies_missing:
  "\<not> set deps \<subseteq> ids \<Longrightarrow> \<exists>m. check_dependencies tid deps ids = Inl (InvalidDependencyError m)"
  by (induction deps) auto

lemma validate_task_ok:
  assumes "PRIORITY_MIN \<le> priority t" "priority t \<le> PRIORITY_MAX"
    "set (dependencies t) \<subseteq> ids" "0 \<le> estimated_hours t"
  shows "validate_task t ids = Inr ()"
  using assms by (simp add: validate_task_def check_dependencies_ok)

lemma validate_tasks_ok:
  "list_all (\<lambda>t. validate_task t ids = Inr ()) ts \<Longrightarrow> validate_tasks ts ids = Inr ()"
  by (induction ts) auto

lemma validate_tasks_first_error:
  "list_all (\<lambda>t. validate_task t ids = Inr ()) pre \<Longrightarrow> validate_task bad ids = Inl e \<Longrightarrow>
     validate_tasks (pre @ bad # post) ids = Inl e"
  by (induction pre) auto

lemma dep_edges_normalized:
  "dep_edges (map (\<lambda>td. (td_id td, normalized_of f td)) tasks) \<subseteq> batch_edges tasks"
proof
  fix e assume "e \<in> dep_edges (map (\<lambda>td. (td_id td, normalized_of f td)) tasks)"
  then obtain a b t where e: "e = (a, b)"
    and m: "map_of (map (\<lambda>td. (td_id td, normalized_of f td)) tasks) a = Some t"
    and b: "b \<in> set (dependencies t)"
    by (auto simp: dep_edges_def)
  from m have "(a, t) \<in> set (map (\<lambda>td. (td_id td, normalized_of f td)) tasks)"
    by (rule map_of_SomeD)
  then obtain td where "td \<in> set tasks" "a = td_id td" "t = normalized_of f td"
    by auto
  then show "e \<in> batch_edges tasks"
    using e b by (auto simp: batch_edges_def normalized_of_def make_Task_def)
qed

lemma acyclic_batch_not_cyclic:
  assumes "acyclic (batch_edges tasks)"
  shows "\<not> cyclic (map (\<lambda>td. (td_id td, normalized_of f td)) tasks)"
proof
  assume "cyclic (map (\<lambda>td. (td_id td, normalized_of f td)) tasks)"
  then obtain c where "(c, c) \<in> (dep_edges (map (\<lambda>td. (td_id td, normalized_of f td)) tasks))\<^sup>+"
    by (auto simp: cyclic_def on_cycle_def)
  then have "(c, c) \<in> (batch_edges tasks)\<^sup>+"
    using dep_edges_normalized trancl_mono by metis
  with assms show False by (simp add: acyclic_def)
qed

lemma prioritize_tasks_returns_input:
  "prioritize_tasks f tasks = Inr out \<Longrightarrow> out = tasks"
  by (auto simp: prioritize_tasks_def split: if_splits sum.splits)

lemma prioritize_tasks_valid:
  assumes d: "distinct (map td_id tasks)" and v: "valid_batch f tasks"
    and a: "acyclic (batch_edges tasks)"
  shows "prioritize_tasks f tasks = Inr tasks"
proof (cases "tasks = []")
  case True
  then show ?thesis by (simp add: prioritize_tasks_def)
next
  case False
  let ?n = "map (\<lambda>td. (td_id td, normalized_of f td)) tasks"
  have p: "list_all (parses f) tasks"
    using v by (simp add: valid_batch_def list_all_iff)
  have n: "normalize_tasks f tasks = Inr ?n"
    using d p by (rule normalize_tasks_distinct)
  have "list_all (\<lambda>t. validate_task t (set (map td_id tasks)) = Inr ()) (map snd ?n)"
    using v
    by (auto simp: valid_batch_def list_all_iff normalized_of_def make_Task_def
        intro!: validate_task_ok)
  then have vt: "validate_tasks (map snd ?n) (set (map td_id tasks)) = Inr ()"
    by (rule validate_tasks_ok)
  have dc: "detect_circular_dependencies ?n = Inr ()"
    using acyclic_batch_not_cyclic[OF a] by (rule detect_acyclic)
  show ?thesis
    using False n vt dc by (simp add: prioritize_tasks_def)
qed

lemmas sample_eval =
  prioritize_tasks_def normalize_tasks_def parse_deadline_def sample_fromisoformat_def
  sample_dict_def make_Task_def validate_task_def PRIORITY_MIN_def PRIORITY_MAX_def
  detect_circular_dependencies_def has_cycle.simps

lemma prioritize_simple_dependencies:
  "prioritize_tasks sample_fromisoformat simple_dependencies = Inr simple_dependencies"
  by (simp add: simple_dependencies_def sample_eval)

lemma prioritize_worked_example:
  "prioritize_tasks sample_fromisoformat worked_example = Inr worked_example"
  by (simp add: worked_example_def sample_eval)

lemma prioritize_single_task:
  "prioritize_tasks sample_fromisoformat single_task = Inr single_task"
  by (simp add: single_task_def sample_eval)

section \<open>The ordering returned by prioritize_tasks\<close>

text \<open>
  C1: the claim asks that every dependency of a task precede it in the output. The
  function returns its input list unchanged, so on the batch of the repository's test
  \<open>test_simple_dependencies\<close> (task 2, which depends on task 1, given first) the
  output has task 2 before task 1.
\<close>

theorem prioritize_tasks_dependency_order_violated:
  "prioritize_tasks sample_fromisoformat simple_dependencies = Inr simple_dependencies \<and>
   map td_id simple_dependencies = [''2'', ''1''] \<and>
   td_dependencies (simple_dependencies ! 0) = [''1''] \<and>
   \<not> respects_dependencies simple_dependencies"
  using prioritize_simple_dependencies
  by (simp add: simple_dependencies_def sample_dict_def respects_dependencies_def)

text \<open>
  C2: on a batch with unique ids that is valid (deadlines parse, priorities in range,
  dependencies resolve, hours non-negative) and acyclic, \<open>prioritize_tasks\<close> succeeds and
  its output holds exactly the ids of the input, each once; and whenever it succeeds
  the ids of the output are a permutation of those of the input.
\<close>

theorem prioritize_tasks_permutation:
  "(distinct (map td_id tasks) \<and> valid_batch fromisoformat tasks \<and> acyclic (batch_edges tasks) \<longrightarrow>
      (\<exists>out. prioritize_tasks fromisoformat tasks = Inr out \<and>
         mset (map td_id out) = mset (map td_id tasks) \<and>
         distinct (map td_id out) \<and> length out = length tasks)) \<and>
   (prioritize_tasks fromisoformat tasks = Inr out' \<longrightarrow>
      mset (map td_id out') = mset (map td_id tasks))"
  using prioritize_tasks_valid[of tasks fromisoformat]
    prioritize_tasks_returns_input[of fromisoformat tasks out']
  by auto

lemma batch_edges_simple_dependencies:
  "(a, b) \<in> batch_edges simple_dependencies \<Longrightarrow> a = ''2'' \<and> b = ''1''"
  by (auto simp: batch_edges_def simple_dependencies_def sample_dict_def)

lemma acyclic_simple_dependencies: "acyclic (batch_edges simple_dependencies)"
  unfolding acyclic_def
proof (intro allI notI)
  fix c assume c: "(c, c) \<in> (batch_edges simple_dependencies)\<^sup>+"
  obtain z where "(c, z) \<in> batch_edges simple_dependencies"
    using tranclD[OF c] by blast
  then have "c = ''2''" using batch_edges_simple_dependencies by blast
  obtain z' where "(z', c) \<in> batch_edges simple_dependencies"
    using tranclD2[OF c] by blast
  then have "c = ''1''" using batch_edges_simple_dependencies by blast
  with \<open>c = ''2''\<close> show False by simp
qed

theorem prioritize_tasks_permutation_witness:
  "distinct (map td_id simple_dependencies) \<and>
   valid_batch sample_fromisoformat simple_dependencies \<and>
   acyclic (batch_edges simple_dependencies) \<and>
   prioritize_tasks sample_fromisoformat simple_dependencies = Inr simple_dependencies \<and>
   mset (map td_id simple_dependencies) = {#''1'', ''2''#}"
proof -
  have d: "distinct (map td_id simple_dependencies)"
    by (simp add: simple_dependencies_def sample_dict_def)
  have v: "valid_batch sample_fromisoformat simple_dependencies"
    by (simp add: valid_batch_def parses_def simple_dependencies_def sample_eval)
  have m: "mset (map td_id simple_dependencies) = {#''1'', ''2''#}"
    by (simp add: simple_dependencies_def sample_dict_def)
  obtain out where "prioritize_tasks sample_fromisoformat simple_dependencies = Inr out"
    "mset (map td_id out) = mset (map td_id simple_dependencies)"
    using prioritize_tasks_permutation [of simple_dependencies sample_fromisoformat]
      d v acyclic_simple_dependencies by blast
  then show ?thesis
    using d v m acyclic_simple_dependencies prioritize_simple_dependencies by simp
qed

text \<open>
  C3: on the worked example given in the order 1, 2, 3, 4, 5 the claim expects the
  order 1, 3, 2, 4, 5. The function returns the batch as given: 1, 2, 3, 4, 5.
\<close>

theorem prioritize_tasks_worked_example_unordered:
  "prioritize_tasks sample_fromisoformat worked_example = Inr worked_example \<and>
   map td_id worked_example = [''1'', ''2'', ''3'', ''4'', ''5''] \<and>
   map td_id worked_example \<noteq> [''1'', ''3'', ''2'', ''4'', ''5'']"
  using prioritize_worked_example
  by (simp add: worked_example_def sample_dict_def)

text \<open>
  C8, as the code has it: on success the returned sequence is the input sequence
  itself, every record with the fields it came with; a deadline given as a string is
  returned as that string. Every deadline of the batch has been parsed successfully,
  but the parsed values stay inside the function.
\<close>

theorem prioritize_tasks_returns_input_records:
  assumes "prioritize_tasks fromisoformat tasks = Inr out"
  shows "out = tasks \<and> list_all (parses fromisoformat) tasks"
proof
  show "out = tasks" using assms by (rule prioritize_tasks_returns_input)
  show "list_all (parses fromisoformat) tasks"
  proof (cases "tasks = []")
    case True
    then show ?thesis by simp
  next
    case False
    then obtain n where "normalize_tasks fromisoformat tasks = Inr n"
      using assms by (auto simp: prioritize_tasks_def split: sum.splits)
    then show ?thesis
      unfolding normalize_tasks_def by (rule normalize_loop_parses)
  qed
qed

theorem prioritize_tasks_returns_input_records_witness:
  "prioritize_tasks sample_fromisoformat single_task = Inr single_task \<and>
   list_all (parses sample_fromisoformat) single_task"
  using prioritize_tasks_returns_input_records [OF prioritize_single_task]
    prioritize_single_task by simp

text \<open>
  C8 as stated fails: on the one-task batch of the repository's test
  \<open>test_single_task\<close>, whose deadline is the string 2024-01-15, the returned record
  still carries the string, not the parsed value.
\<close>

theorem prioritize_tasks_deadline_not_normalized_counterexample:
  "prioritize_tasks sample_fromisoformat single_task = Inr single_task \<and>
   map td_deadline single_task = [Str ''2024-01-15''] \<and>
   parse_deadline sample_fromisoformat (Str ''2024-01-15'') = Inr (2024, 1, 15) \<and>
   map td_deadline single_task \<noteq> [DT (2024, 1, 15)]"
  using prioritize_single_task
  by (simp add: single_task_def sample_dict_def parse_deadline_def sample_fromisoformat_def)

section \<open>Order of the validation checks\<close>

text \<open>
  C7, as the code has it: within one task the checks run priority, then dependencies,
  then estimated hours, and the first failing check decides the error. Across a batch
  with unique ids whose deadlines all parse, the error raised is the one of the first
  task, in input order, that fails validation. (Every deadline of the batch is parsed
  before any task is validated.)
\<close>

theorem validation_order_first_invalid:
  "(priority t < 1 \<or> 5 < priority t \<longrightarrow>
      (\<exists>m. validate_task t ids = Inl (InvalidPriorityError m))) \<and>
   (1 \<le> priority t \<and> priority t \<le> 5 \<and> \<not> set (dependencies t) \<subseteq> ids \<longrightarrow>
      (\<exists>m. validate_task t ids = Inl (InvalidDependencyError m))) \<and>
   (1 \<le> priority t \<and> priority t \<le> 5 \<and> set (dependencies t) \<subseteq> ids \<and> estimated_hours t < 0 \<longrightarrow>
      (\<exists>m. validate_task t ids = Inl (ValueError m))) \<and>
   (distinct (map td_id (pre @ bad # post)) \<and>
    list_all (parses fromisoformat) (pre @ bad # post) \<and>
    list_all (\<lambda>td. validate_task (normalized_of fromisoformat td)
                 (set (map td_id (pre @ bad # post))) = Inr ()) pre \<and>
    validate_task (normalized_of fromisoformat bad) (set (map td_id (pre @ bad # post))) = Inl e
    \<longrightarrow> prioritize_tasks fromisoformat (pre @ bad # post) = Inl e)"
proof (intro conjI impI)
  assume "priority t < 1 \<or> 5 < priority t"
  then show "\<exists>m. validate_task t ids = Inl (InvalidPriorityError m)"
    by (simp add: validate_task_def PRIORITY_MIN_def PRIORITY_MAX_def)
next
  assume a: "1 \<le> priority t \<and> priority t \<le> 5 \<and> \<not> set (dependencies t) \<subseteq> ids"
  then obtain m where "check_dependencies (task_id t) (dependencies t) ids
      = Inl (InvalidDependencyError m)"
    using check_dependencies_missing by blast
  then show "\<exists>m. validate_task t ids = Inl (InvalidDependencyError m)"
    using a by (simp add: validate_task_def PRIORITY_MIN_def PRIORITY_MAX_def)
next
  assume "1 \<le> priority t \<and> priority t \<le> 5 \<and> set (dependencies t) \<subseteq> ids \<and> estimated_hours t < 0"
  then show "\<exists>m. validate_task t ids = Inl (ValueError m)"
    by (simp add: validate_task_def PRIORITY_MIN_def PRIORITY_MAX_def check_dependencies_ok)
next
  let ?tasks = "pre @ bad # post"
  let ?norm = "\<lambda>td. (td_id td, normalized_of fromisoformat td)"
  assume a: "distinct (map td_id ?tasks) \<and> list_all (parses fromisoformat) ?tasks \<and>
    list_all (\<lambda>td. validate_task (normalized_of fromisoformat td) (set (map td_id ?tasks)) = Inr ()) pre \<and>
    validate_task (normalized_of fromisoformat bad) (set (map td_id ?tasks)) = Inl e"
  then have n: "normalize_tasks fromisoformat ?tasks = Inr (map ?norm ?tasks)"
    using normalize_tasks_distinct by blast
  have "map snd (map ?norm ?tasks)
      = map (normalized_of fromisoformat) pre @ normalized_of fromisoformat bad
          # map (normalized_of fromisoformat) post"
    by (simp add: comp_def)
  moreover have "list_all (\<lambda>t. validate_task t (set (map td_id ?tasks)) = Inr ())
      (map (normalized_of fromisoformat) pre)"
    using a by (simp add: list_all_iff)
  ultimately have "validate_tasks (map snd (map ?norm ?tasks)) (set (map td_id ?tasks)) = Inl e"
    using a validate_tasks_first_error by metis
  then show "prioritize_tasks fromisoformat ?tasks = Inl e"
    using n by (simp add: prioritize_tasks_def)
qed

theorem validation_order_first_invalid_witness:
  "validate_task (normalized_of sample_fromisoformat (sample_dict ''2'' ''2024-01-15'' 0 [''999''] (-1)))
     {''1'', ''2'', ''3''}
     = Inl (InvalidPriorityError
         (''Task '' @ quoted ''2'' @ '' has invalid priority 0. Priority must be between 1 and 5.'')) \<and>
   prioritize_tasks sample_fromisoformat two_invalid
     = Inl (InvalidPriorityError
         (''Task '' @ quoted ''2'' @ '' has invalid priority 0. Priority must be between 1 and 5.''))"
proof -
  let ?t1 = "sample_dict ''1'' ''2024-01-15'' 3 [] 2"
  let ?t2 = "sample_dict ''2'' ''2024-01-15'' 0 [''999''] (-1)"
  let ?t3 = "sample_dict ''3'' ''2024-01-15'' 9 [] 2"
  let ?e = "InvalidPriorityError
         (''Task '' @ quoted ''2'' @ '' has invalid priority 0. Priority must be between 1 and 5.'')"
  have split: "two_invalid = [?t1] @ ?t2 # [?t3]"
    by (simp add: two_invalid_def)
  have ids: "set (map td_id ([?t1] @ ?t2 # [?t3])) = {''1'', ''2'', ''3''}"
    by (simp add: sample_dict_def)
  have h1: "distinct (map td_id ([?t1] @ ?t2 # [?t3]))"
    by (simp add: sample_dict_def)
  have h2: "list_all (parses sample_fromisoformat) ([?t1] @ ?t2 # [?t3])"
    by (simp add: parses_def parse_deadline_def sample_fromisoformat_def sample_dict_def)
  have h3: "list_all (\<lambda>td. validate_task (normalized_of sample_fromisoformat td)
      (set (map td_id ([?t1] @ ?t2 # [?t3]))) = Inr ()) [?t1]"
    unfolding ids
    by (simp add: normalized_of_def make_Task_def validate_task_def parse_deadline_def
        sample_fromisoformat_def sample_dict_def PRIORITY_MIN_def PRIORITY_MAX_def)
  have h4: "validate_task (normalized_of sample_fromisoformat ?t2)
      (set (map td_id ([?t1] @ ?t2 # [?t3]))) = Inl ?e"
    unfolding ids
    by (simp add: normalized_of_def make_Task_def validate_task_def parse_deadline_def
        sample_fromisoformat_def sample_dict_def PRIORITY_MIN_def PRIORITY_MAX_def
        str_int_def str_nat.simps digit_char_def)
  have p: "prioritize_tasks sample_fromisoformat ([?t1] @ ?t2 # [?t3]) = Inl ?e"
    using validation_order_first_invalid
      [of "normalized_of sample_fromisoformat ?t2" "{''1'', ''2'', ''3''}" "[?t1]" ?t2 "[?t3]"
          sample_fromisoformat ?e]
      h1 h2 h3 h4 by blast
  from p h4[unfolded ids] show ?thesis unfolding split by blast
qed

text \<open>
  C7 as stated fails across a batch: when the first task has priority 0 and the second
  has priority 9 and an unparseable deadline string, both tasks are invalid, and the
  error raised is the second task's date error, not the priority error of the first
  task in input order.
\<close>

theorem first_invalid_task_counterexample:
  "map td_id bad_priority_then_bad_date = [''1'', ''2''] \<and>
   map td_priority bad_priority_then_bad_date = [0, 9] \<and>
   prioritize_tasks sample_fromisoformat bad_priority_then_bad_date
     = Inl (ValueError ''Invalid date format: not-a-date'') \<and>
   validate_task (make_Task (bad_priority_then_bad_date ! 0) (2024, 1, 15)) {''1'', ''2''}
     = Inl (InvalidPriorityError
         (''Task '' @ quoted ''1'' @ '' has invalid priority 0. Priority must be between 1 and 5.''))"
  by (simp add: bad_priority_then_bad_date_def sample_eval str_int_def str_nat.simps digit_char_def)

end
